theory Spec2Isabelle
  imports Complex_Main
begin

unbundle bit_operations_syntax

section \<open>Four-digit seven-segment display sketch\<close>

text \<open>
  A shallow embedding of \<^verbatim>\<open>FourDigitSevenSegmentDisplay.ino\<close>. The sketch talks to the
  hardware only through \<^verbatim>\<open>pinMode\<close>, \<^verbatim>\<open>digitalWrite\<close> and \<^verbatim>\<open>delayMicroseconds\<close>; each
  function of the sketch is modelled by the sequence of these operations that it performs.
  \<^verbatim>\<open>displayNumber\<close> reaches the pins only by calling \<^verbatim>\<open>extinguishDigits\<close>, \<^verbatim>\<open>displayDigit\<close>,
  \<^verbatim>\<open>displayMinusSign\<close> and \<^verbatim>\<open>delayMicroseconds\<close>, so its model returns the sequence of
  these calls, and \<open>run_calls\<close> expands every call by the model of the callee.
\<close>

subsection \<open>Single-precision arithmetic\<close>

text \<open>
  A \<^verbatim>\<open>float\<close> is an IEEE 754 binary32 number: a finite value (kept as the rational it
  denotes, the two zeros identified), an infinity or a NaN. Every arithmetic operation
  computes the exact rational result and rounds it to the nearest number with a 24-bit
  significand, ties to even; \<open>fp_round p qmin\<close> is that rounding for precision \<open>p\<close> and least
  quantum \<open>2 ^ qmin\<close> (subnormal numbers). \<open>ilog2 x\<close> is the binary exponent of a positive \<open>x\<close>.
\<close>

function bitlen :: "int \<Rightarrow> nat" where
  "bitlen n = (if n \<le> 0 then 0 else Suc (bitlen (n div 2)))"
  by pat_completeness auto
termination
  by (relation "measure nat") simp_all

declare bitlen.simps [simp del]

definition ilog2 :: "rat \<Rightarrow> int" where
  "ilog2 x = (if 1 \<le> x then int (bitlen \<lfloor>x\<rfloor>) - 1
              else - int (bitlen (\<lceil>1 / x\<rceil> - 1)))"

definition pow2 :: "int \<Rightarrow> rat" where
  "pow2 e = (if 0 \<le> e then 2 ^ nat e else 1 / 2 ^ nat (- e))"

definition round_half_even :: "rat \<Rightarrow> int" where
  "round_half_even x =
     (let f = \<lfloor>x\<rfloor>; d = x - of_int f in
      if d < 1 / 2 then f else if 1 / 2 < d then f + 1
      else if even f then f else f + 1)"

definition fp_round :: "nat \<Rightarrow> int \<Rightarrow> rat \<Rightarrow> rat" where
  "fp_round p qmin x =
     (if x = 0 then 0
      else let q = max (ilog2 \<bar>x\<bar> - (int p - 1)) qmin
           in sgn x * of_int (round_half_even (\<bar>x\<bar> / pow2 q)) * pow2 q)"

definition round32 :: "rat \<Rightarrow> rat" where
  "round32 = fp_round 24 (- 149)"

definition round64 :: "rat \<Rightarrow> rat" where
  "round64 = fp_round 53 (- 1074)"

datatype float = Finite rat | PInf | NInf | NaN

definition to_float :: "rat \<Rightarrow> float" where
  "to_float x =
     (let r = round32 x in
      if 2 ^ 128 \<le> r then PInf else if r \<le> - (2 ^ 128) then NInf else Finite r)"

fun fneg :: "float \<Rightarrow> float" where
  "fneg (Finite a) = Finite (- a)"
| "fneg PInf = NInf"
| "fneg NInf = PInf"
| "fneg NaN = NaN"

fun fadd :: "float \<Rightarrow> float \<Rightarrow> float" where
  "fadd (Finite a) (Finite b) = to_float (a + b)"
| "fadd NaN _ = NaN"
| "fadd _ NaN = NaN"
| "fadd PInf NInf = NaN"
| "fadd NInf PInf = NaN"
| "fadd PInf _ = PInf"
| "fadd _ PInf = PInf"
| "fadd NInf _ = NInf"
| "fadd _ NInf = NInf"

definition fsub :: "float \<Rightarrow> float \<Rightarrow> float" where
  "fsub a b = fadd a (fneg b)"

fun fsign :: "float \<Rightarrow> int" where
  "fsign (Finite a) = sgn \<lfloor>sgn a\<rfloor>"
| "fsign PInf = 1"
| "fsign NInf = - 1"
| "fsign NaN = 0"

fun fmul :: "float \<Rightarrow> float \<Rightarrow> float" where
  "fmul (Finite a) (Finite b) = to_float (a * b)"
| "fmul NaN _ = NaN"
| "fmul _ NaN = NaN"
| "fmul a b =
     (if fsign a * fsign b = 0 then NaN else if 0 < fsign a * fsign b then PInf else NInf)"


text \<open>Comparisons: every comparison with a NaN is false.\<close>

fun flt :: "float \<Rightarrow> float \<Rightarrow> bool" where
  "flt (Finite a) (Finite b) = (a < b)"
| "flt NaN _ = False"
| "flt _ NaN = False"
| "flt NInf b = (b \<noteq> NInf)"
| "flt a PInf = (a \<noteq> PInf)"
| "flt _ _ = False"

definition fle :: "float \<Rightarrow> float \<Rightarrow> bool" where
  "fle a b = (a \<noteq> NaN \<and> b \<noteq> NaN \<and> (flt a b \<or> a = b))"

text \<open>
  Conversions. \<^verbatim>\<open>int\<close> is the 16-bit integer of the ATmega boards; converting a \<^verbatim>\<open>float\<close>
  to \<^verbatim>\<open>int\<close> truncates towards zero and is undefined (\<open>None\<close>) for a NaN, an infinity or a
  value whose truncation does not fit.
\<close>

definition INT_MIN :: int where "INT_MIN = - 32768"
definition INT_MAX :: int where "INT_MAX = 32767"

fun float_to_int :: "float \<Rightarrow> int option" where
  "float_to_int (Finite x) =
     (let t = (if 0 \<le> x then \<lfloor>x\<rfloor> else \<lceil>x\<rceil>) in
      if INT_MIN \<le> t \<and> t \<le> INT_MAX then Some t else None)"
| "float_to_int _ = None"

definition int_to_float :: "int \<Rightarrow> float" where
  "int_to_float i = to_float (of_int i)"

text \<open>C's integer division and remainder truncate towards zero.\<close>

definition c_div :: "int \<Rightarrow> int \<Rightarrow> int" where
  "c_div a b = sgn a * sgn b * (\<bar>a\<bar> div \<bar>b\<bar>)"

definition c_mod :: "int \<Rightarrow> int \<Rightarrow> int" where
  "c_mod a b = a - c_div a b * b"

subsection \<open>Pins and constants of the sketch\<close>

definition SEGMENT_A :: int where "SEGMENT_A = 2"
definition SEGMENT_B :: int where "SEGMENT_B = 3"
definition SEGMENT_C :: int where "SEGMENT_C = 4"
definition SEGMENT_D :: int where "SEGMENT_D = 5"
definition SEGMENT_E :: int where "SEGMENT_E = 6"
definition SEGMENT_F :: int where "SEGMENT_F = 7"
definition SEGMENT_G :: int where "SEGMENT_G = 8"
definition SEGMENT_DP :: int where "SEGMENT_DP = 9"

definition DIGIT_1 :: int where "DIGIT_1 = 10"
definition DIGIT_2 :: int where "DIGIT_2 = 11"
definition DIGIT_3 :: int where "DIGIT_3 = 12"
definition DIGIT_4 :: int where "DIGIT_4 = 13"

definition numberOfDigits :: int where "numberOfDigits = 4"

definition digitTimeOn :: int where "digitTimeOn = 1250"

definition scaleOfNumber :: int where "scaleOfNumber = 1"

text \<open>
  The initialisers of the floating-point constants are double-precision expressions
  (\<^verbatim>\<open>pow\<close> returns a \<^verbatim>\<open>double\<close>, \<^verbatim>\<open>1.0\<close> and \<^verbatim>\<open>0.2\<close> are \<^verbatim>\<open>double\<close> literals); each
  operation is rounded by \<open>round64\<close> and the result is converted to \<^verbatim>\<open>float\<close> by \<open>round32\<close>.
  \<^verbatim>\<open>pow(10.0, k)\<close> is the correctly rounded power. All these values are finite, so they
  are computed on rationals; the \<open>_val\<close> constant is the value of the \<^verbatim>\<open>float\<close> constant.
\<close>

definition scalingFactor :: int where
  "scalingFactor = \<lfloor>round64 (10 ^ nat scaleOfNumber)\<rfloor>"

definition increment_val :: rat where
  "increment_val = round32 (round64 (1 / of_int scalingFactor))"

definition minimumValue_val :: rat where
  "minimumValue_val =
     round32 (round64 (round64 (- round64 (10 ^ nat (numberOfDigits - 1)) / of_int scalingFactor)
                       + increment_val))"

definition maximumValue_val :: rat where
  "maximumValue_val =
     round32 (round64 (round64 (round64 (10 ^ nat numberOfDigits) / of_int scalingFactor)
                       - increment_val))"

definition minimumValue :: float where "minimumValue = Finite minimumValue_val"
definition maximumValue :: float where "maximumValue = Finite maximumValue_val"



text \<open>
  The segment encodings: bit 6 is segment a, bit 0 is segment g
  (\<^verbatim>\<open>0b1111110\<close> is 126, and so on).
\<close>

definition segmentPatterns :: "int list" where
  "segmentPatterns = [126, 48, 109, 121, 51, 91, 95, 112, 127, 123]"

text \<open>Reading a C array: \<open>None\<close> is a read outside the array.\<close>

definition array_read :: "int list \<Rightarrow> int \<Rightarrow> int option" where
  "array_read a i = (if 0 \<le> i \<and> i < int (length a) then Some (a ! nat i) else None)"

subsection \<open>Hardware operations\<close>

datatype pin_mode = INPUT | OUTPUT

definition LOW :: bool where "LOW = False"
definition HIGH :: bool where "HIGH = True"

datatype event = PinMode int pin_mode | DigitalWrite int bool | DelayMicroseconds int

text \<open>\<^verbatim>\<open>extinguishDigits\<close>: every digit pin from \<^verbatim>\<open>DIGIT_1\<close> up to \<^verbatim>\<open>DIGIT_4\<close> becomes an input.\<close>

definition extinguishDigits :: "event list" where
  "extinguishDigits = map (\<lambda>currentDigit. PinMode currentDigit INPUT) [DIGIT_1..DIGIT_4]"

text \<open>
  \<^verbatim>\<open>displayMinusSign\<close>: segments f down to a low, the decimal point low, g high, then the
  digit pin is made an output and driven low.
\<close>

definition displayMinusSign :: "int \<Rightarrow> event list" where
  "displayMinusSign digit =
     extinguishDigits
     @ map (\<lambda>currentSegment. DigitalWrite currentSegment LOW) (rev [SEGMENT_A..SEGMENT_F])
     @ [DigitalWrite SEGMENT_DP LOW]
     @ [DigitalWrite SEGMENT_G HIGH]
     @ (let selectedDigitPin = digit + DIGIT_1 - 1
        in [PinMode selectedDigitPin OUTPUT, DigitalWrite selectedDigitPin LOW])"

text \<open>
  The segment loop of \<^verbatim>\<open>displayDigit\<close>: for each pin from \<^verbatim>\<open>SEGMENT_G\<close> down to
  \<^verbatim>\<open>SEGMENT_A\<close>, write the lowest bit of \<^verbatim>\<open>segments\<close> and shift \<^verbatim>\<open>segments\<close> right.
\<close>

fun write_segments :: "int list \<Rightarrow> int \<Rightarrow> event list" where
  "write_segments [] segments = []"
| "write_segments (currentSegment # pins) segments =
     DigitalWrite currentSegment ((segments AND 1) \<noteq> 0)
     # write_segments pins (drop_bit 1 segments)"

definition displayDigit :: "int \<Rightarrow> int \<Rightarrow> bool \<Rightarrow> event list option" where
  "displayDigit digit val decimalPoint =
     (case (if 0 \<le> val \<and> val \<le> 9 then array_read segmentPatterns val else Some 0) of
        None \<Rightarrow> None
      | Some segments \<Rightarrow>
          Some (extinguishDigits
                @ write_segments (rev [SEGMENT_A..SEGMENT_G]) segments
                @ [DigitalWrite SEGMENT_DP decimalPoint]
                @ (let selectedDigitPin = digit + DIGIT_1 - 1
                   in [PinMode selectedDigitPin OUTPUT, DigitalWrite selectedDigitPin LOW])))"

subsection \<open>displayNumber\<close>

datatype call = DisplayDigit int int bool | DisplayMinusSign int | ExtinguishDigits | Delay int

fun perform :: "call \<Rightarrow> event list option" where
  "perform (DisplayDigit digit val decimalPoint) = displayDigit digit val decimalPoint"
| "perform (DisplayMinusSign digit) = Some (displayMinusSign digit)"
| "perform ExtinguishDigits = Some extinguishDigits"
| "perform (Delay us) = Some [DelayMicroseconds us]"

fun run_calls :: "call list \<Rightarrow> event list option" where
  "run_calls [] = Some []"
| "run_calls (c # cs) =
     (case perform c of
        None \<Rightarrow> None
      | Some es \<Rightarrow> (case run_calls cs of None \<Rightarrow> None | Some es' \<Rightarrow> Some (es @ es')))"

text \<open>
  The loop over the fractional digits runs \<^verbatim>\<open>scaleOfNumber\<close> times; the first argument
  counts the iterations that are left. The result is the calls made and the final value
  of \<^verbatim>\<open>currentDigit\<close>.
\<close>

fun fractional_loop :: "nat \<Rightarrow> int \<Rightarrow> int \<Rightarrow> call list \<times> int" where
  "fractional_loop 0 remainingValue currentDigit = ([], currentDigit)"
| "fractional_loop (Suc n) remainingValue currentDigit =
     (let digit = c_mod remainingValue 10;
          (calls, currentDigit') =
             fractional_loop n (c_div remainingValue 10) (currentDigit - 1)
      in ([DisplayDigit currentDigit digit False, Delay digitTimeOn] @ calls, currentDigit'))"

text \<open>The do-while loop over the digits of the integer part.\<close>

function integer_loop :: "int \<Rightarrow> bool \<Rightarrow> int \<Rightarrow> call list \<times> int" where
  "integer_loop remainingValue decimalPoint currentDigit =
     (if c_div remainingValue 10 > 0
      then (let (calls, currentDigit') =
                   integer_loop (c_div remainingValue 10) False (currentDigit - 1)
            in ([DisplayDigit currentDigit (c_mod remainingValue 10) decimalPoint,
                 Delay digitTimeOn] @ calls, currentDigit'))
      else ([DisplayDigit currentDigit (c_mod remainingValue 10) decimalPoint,
             Delay digitTimeOn], currentDigit - 1))"
  by pat_completeness auto
termination
proof (relation "measure (\<lambda>(remainingValue, decimalPoint, currentDigit). nat remainingValue)")
  show "wf (measure (\<lambda>(remainingValue :: int, decimalPoint :: bool, currentDigit :: int).
                        nat remainingValue))"
    by simp
next
  fix remainingValue :: int and decimalPoint :: bool and currentDigit :: int
  assume pos: "0 < c_div remainingValue 10"
  have "0 < remainingValue"
  proof (rule ccontr)
    assume "\<not> 0 < remainingValue"
    then have "remainingValue \<le> 0" by simp
    then have "c_div remainingValue 10 \<le> 0"
      by (cases "remainingValue = 0") (simp_all add: c_div_def)
    with pos show False by simp
  qed
  moreover from this have "c_div remainingValue 10 = remainingValue div 10"
    by (simp add: c_div_def)
  ultimately have "nat (c_div remainingValue 10) < nat remainingValue"
    by simp
  then show "((c_div remainingValue 10, False, currentDigit - 1),
              remainingValue, decimalPoint, currentDigit)
             \<in> measure (\<lambda>(remainingValue, decimalPoint, currentDigit). nat remainingValue)"
    by simp
qed

declare integer_loop.simps [simp del]

definition displayNumber :: "float \<Rightarrow> call list option" where
  "displayNumber number0 =
     (let currentDigit = numberOfDigits in
      if fle minimumValue number0 \<and> fle number0 maximumValue then
        (let negative = flt number0 (Finite 0);
             number = (if negative then fneg number0 else number0)
         in case float_to_int number of
              None \<Rightarrow> None
            | Some integerPart \<Rightarrow>
               (case float_to_int (fmul (fsub number (int_to_float integerPart))
                                        (int_to_float scalingFactor)) of
                  None \<Rightarrow> None
                | Some fractionalPart \<Rightarrow>
                   (let (calls1, currentDigit) =
                          fractional_loop (nat scaleOfNumber) fractionalPart currentDigit;
                        (calls2, currentDigit) = integer_loop integerPart True currentDigit;
                        (calls3, currentDigit) =
                          (if negative
                           then ([DisplayMinusSign currentDigit, Delay digitTimeOn],
                                 currentDigit - 1)
                           else ([], currentDigit))
                    in Some (calls1 @ calls2 @ calls3
                             @ [ExtinguishDigits, Delay (digitTimeOn * currentDigit)]))))
      else Some [ExtinguishDigits, Delay (digitTimeOn * currentDigit)])"

subsection \<open>setup and loop\<close>









subsection \<open>The state of the pins\<close>

text \<open>
  Every pin has a mode and an output level. A digit of the display is lit when its
  common-cathode pin is an output that is driven low; an input pin floats.
\<close>

record hw =
  pin_modes :: "int \<Rightarrow> pin_mode"
  levels :: "int \<Rightarrow> bool"

fun exec :: "event \<Rightarrow> hw \<Rightarrow> hw" where
  "exec (PinMode p m) s = s\<lparr>pin_modes := (pin_modes s)(p := m)\<rparr>"
| "exec (DigitalWrite p v) s = s\<lparr>levels := (levels s)(p := v)\<rparr>"
| "exec (DelayMicroseconds us) s = s"

definition run :: "event list \<Rightarrow> hw \<Rightarrow> hw" where
  "run es s = foldl (\<lambda>s e. exec e s) s es"

definition digit_pins :: "int list" where
  "digit_pins = [DIGIT_1, DIGIT_2, DIGIT_3, DIGIT_4]"

definition segment_pins :: "int list" where
  "segment_pins = [SEGMENT_A, SEGMENT_B, SEGMENT_C, SEGMENT_D, SEGMENT_E, SEGMENT_F,
                   SEGMENT_G, SEGMENT_DP]"

definition asserted :: "hw \<Rightarrow> int \<Rightarrow> bool" where
  "asserted s p = (pin_modes s p = OUTPUT \<and> levels s p = LOW)"

definition blanked :: "hw \<Rightarrow> bool" where
  "blanked s = list_all (\<lambda>p. \<not> asserted s p) digit_pins"

definition selects :: "event \<Rightarrow> hw \<Rightarrow> bool" where
  "selects e s = list_ex (\<lambda>p. \<not> asserted s p \<and> asserted (exec e s) p) digit_pins"

subsection \<open>Measures of a refresh cycle\<close>

fun is_render :: "call \<Rightarrow> bool" where
  "is_render (DisplayDigit digit val decimalPoint) = True"
| "is_render (DisplayMinusSign digit) = True"
| "is_render _ = False"

fun delay_of :: "call \<Rightarrow> int" where
  "delay_of (Delay us) = us"
| "delay_of _ = 0"

definition total_delay :: "call list \<Rightarrow> int" where
  "total_delay calls = sum_list (map delay_of calls)"

definition render_steps :: "call list \<Rightarrow> int" where
  "render_steps calls = int (length (filter is_render calls))"

text \<open>
  A refresh cycle is a list of render steps, each followed by the dwell time, and a final
  blank hold; \<open>position\<close> is the digit slot a render step addresses.
\<close>

definition with_dwell :: "call list \<Rightarrow> call list" where
  "with_dwell steps = concat (map (\<lambda>c. [c, Delay digitTimeOn]) steps)"

fun position :: "call \<Rightarrow> int" where
  "position (DisplayDigit digit val decimalPoint) = digit"
| "position (DisplayMinusSign digit) = digit"
| "position _ = 0"

fun is_digit_step :: "call \<Rightarrow> bool" where
  "is_digit_step (DisplayDigit digit val decimalPoint) = (0 \<le> val \<and> val \<le> 9)"
| "is_digit_step _ = False"

fun on_display :: "call \<Rightarrow> bool" where
  "on_display (DisplayDigit digit val decimalPoint) = (1 \<le> digit \<and> digit \<le> numberOfDigits)"
| "on_display (DisplayMinusSign digit) = (1 \<le> digit \<and> digit \<le> numberOfDigits)"
| "on_display _ = True"

text \<open>The digit pins that a sequence of operations turns into outputs, in order.\<close>

fun selected_pin :: "event \<Rightarrow> int list" where
  "selected_pin (PinMode p OUTPUT) = [p]"
| "selected_pin _ = []"

definition selections :: "event list \<Rightarrow> int list" where
  "selections es = concat (map selected_pin es)"

text \<open>
  A decimal literal of the source is a \<^verbatim>\<open>double\<close>; passed to \<^verbatim>\<open>displayNumber\<close> it is
  converted to \<^verbatim>\<open>float\<close>.
\<close>

definition float_literal :: "rat \<Rightarrow> float" where
  "float_literal x = to_float (round64 x)"


text \<open>The segments that the loop of \<^verbatim>\<open>displayDigit\<close> drives high for a pattern.\<close>

definition lit_segments :: "int \<Rightarrow> int list" where
  "lit_segments segments =
     filter (\<lambda>p. DigitalWrite p HIGH \<in> set (write_segments (rev [SEGMENT_A..SEGMENT_G]) segments))
            [SEGMENT_A..SEGMENT_G]"

text \<open>
  The standard seven-segment font for the digits 0 to 9, as the comments of the pattern
  table list it.
\<close>

definition canonical_glyph :: "int list list" where
  "canonical_glyph =
     [[SEGMENT_A, SEGMENT_B, SEGMENT_C, SEGMENT_D, SEGMENT_E, SEGMENT_F],
      [SEGMENT_B, SEGMENT_C],
      [SEGMENT_A, SEGMENT_B, SEGMENT_D, SEGMENT_E, SEGMENT_G],
      [SEGMENT_A, SEGMENT_B, SEGMENT_C, SEGMENT_D, SEGMENT_G],
      [SEGMENT_B, SEGMENT_C, SEGMENT_F, SEGMENT_G],
      [SEGMENT_A, SEGMENT_C, SEGMENT_D, SEGMENT_F, SEGMENT_G],
      [SEGMENT_A, SEGMENT_C, SEGMENT_D, SEGMENT_E, SEGMENT_F, SEGMENT_G],
      [SEGMENT_A, SEGMENT_B, SEGMENT_C],
      [SEGMENT_A, SEGMENT_B, SEGMENT_C, SEGMENT_D, SEGMENT_E, SEGMENT_F, SEGMENT_G],
      [SEGMENT_A, SEGMENT_B, SEGMENT_C, SEGMENT_D, SEGMENT_F, SEGMENT_G]]"

text \<open>The number of one bits of a non-negative pattern.\<close>

fun popcount :: "nat \<Rightarrow> nat" where
  "popcount n = (if n = 0 then 0 else n mod 2 + popcount (n div 2))"

declare popcount.simps [simp del]

text \<open>The quantum of the rounding of \<open>x\<close>: the weight of the last place that is kept.\<close>

definition quantum :: "nat \<Rightarrow> int \<Rightarrow> rat \<Rightarrow> int" where
  "quantum p qmin x = max (ilog2 \<bar>x\<bar> - (int p - 1)) qmin"

subsection \<open>The refresh monitor\<close>

text \<open>
  The glyph that a render step is meant to show: the standard font for a value from 0 to
  9 and no segment for any other value; the minus sign is segment g alone. The levels
  expected on the eight segment lines follow, in the order of \<open>segment_pins\<close>.
\<close>

definition glyph_of :: "int \<Rightarrow> int list" where
  "glyph_of val = (if 0 \<le> val \<and> val \<le> 9 then canonical_glyph ! nat val else [])"

fun expected_levels :: "call \<Rightarrow> bool list option" where
  "expected_levels (DisplayDigit digit val decimalPoint) =
     Some (map (\<lambda>p. if p = SEGMENT_DP then decimalPoint else p \<in> set (glyph_of val))
               segment_pins)"
| "expected_levels (DisplayMinusSign digit) = Some (map (\<lambda>p. p = SEGMENT_G) segment_pins)"
| "expected_levels _ = None"

text \<open>
  A monitor for the refresh discipline. It carries the pins, the segment lines written
  since the last selection of a digit, and a flag that stays true as long as
  \<^item> a segment line is written only while no digit is selected, and
  \<^item> a digit is selected only while no digit is selected, after all eight segment lines
    have been written since the previous selection, and while the levels of the eight
    segment lines are those of the glyph of the step in progress (\<open>want\<close>; a selection
    outside a render step is a violation).
\<close>

record monitor =
  mon_hw :: hw
  mon_written :: "int list"
  mon_ok :: bool

fun is_segment_write :: "event \<Rightarrow> bool" where
  "is_segment_write (DigitalWrite p v) = (p \<in> set segment_pins)"
| "is_segment_write _ = False"

fun written_pin :: "event \<Rightarrow> int list" where
  "written_pin (DigitalWrite p v) = [p]"
| "written_pin _ = []"

definition monitor_step :: "bool list option \<Rightarrow> monitor \<Rightarrow> event \<Rightarrow> monitor" where
  "monitor_step want m e =
     (let s = mon_hw m in
      \<lparr>mon_hw = exec e s,
       mon_written = (if selects e s then [] else written_pin e @ mon_written m),
       mon_ok = (mon_ok m
                 \<and> (if is_segment_write e then blanked s else True)
                 \<and> (if selects e s
                     then blanked s \<and> list_all (\<lambda>p. p \<in> set (mon_written m)) segment_pins
                          \<and> want = Some (map (levels s) segment_pins)
                     else True))\<rparr>)"

text \<open>
  When a render step has been performed, the digit pin of its position, and no other, is
  selected, and the segment lines still carry the glyph of the step.
\<close>

definition lit_exactly :: "hw \<Rightarrow> int \<Rightarrow> bool" where
  "lit_exactly s pin = list_all (\<lambda>p. asserted s p = (p = pin)) digit_pins"

definition end_of_step :: "call \<Rightarrow> monitor \<Rightarrow> monitor" where
  "end_of_step c m =
     m\<lparr>mon_ok := (mon_ok m
                  \<and> (if is_render c
                      then lit_exactly (mon_hw m) (position c + DIGIT_1 - 1)
                           \<and> expected_levels c = Some (map (levels (mon_hw m)) segment_pins)
                      else True))\<rparr>"

fun monitor_calls :: "monitor \<Rightarrow> call list \<Rightarrow> monitor option" where
  "monitor_calls m [] = Some m"
| "monitor_calls m (c # cs) =
     (case perform c of
        None \<Rightarrow> None
      | Some es \<Rightarrow>
          monitor_calls (end_of_step c (foldl (monitor_step (expected_levels c)) m es)) cs)"

definition cycle_glitch_free :: "hw \<Rightarrow> call list \<Rightarrow> bool" where
  "cycle_glitch_free s calls =
     (case monitor_calls \<lparr>mon_hw = s, mon_written = [], mon_ok = True\<rparr> calls of
        None \<Rightarrow> False
      | Some m \<Rightarrow> mon_ok m)"


section \<open>Properties of the rounding\<close>

lemma pow2_powi: "pow2 e = 2 powi e"
  by (simp add: pow2_def power_int_def inverse_eq_divide power_one_over)

lemma pow2_pos: "0 < pow2 e"
  by (simp add: pow2_powi)

lemma pow2_add: "pow2 (a + b) = pow2 a * pow2 b"
  by (simp add: pow2_powi power_int_add)

lemma pow2_mono: "a \<le> b \<Longrightarrow> pow2 a \<le> pow2 b"
  by (simp add: pow2_powi power_int_increasing)

lemma pow2_less_cancel: "pow2 a < pow2 b \<Longrightarrow> a < b"
  using pow2_mono [of b a] by (cases "a < b") auto

lemma pow2_nat: "0 \<le> e \<Longrightarrow> pow2 e = of_int (2 ^ nat e)"
  by (simp add: pow2_def)

lemma bitlen_0: "bitlen 0 = 0"
  by (simp add: bitlen.simps)

lemma bitlen_pos: "0 < n \<Longrightarrow> bitlen n = Suc (bitlen (n div 2))"
  by (subst bitlen.simps) simp

lemma bitlen_bounds: "0 < n \<Longrightarrow> 2 ^ (bitlen n - 1) \<le> n \<and> n < 2 ^ bitlen n"
proof (induction n rule: bitlen.induct)
  case (1 n)
  show ?case
  proof (cases "n div 2 = 0")
    case True
    with "1.prems" have "n = 1" by arith
    then show ?thesis using bitlen_pos [of 1] by (simp add: bitlen_0)
  next
    case False
    with "1.prems" have pos: "0 < n div 2" by arith
    from "1.prems" have ne: "\<not> n \<le> 0" by simp
    from "1.IH" [OF ne pos] have lo: "2 ^ (bitlen (n div 2) - 1) \<le> n div 2"
      and hi: "n div 2 < 2 ^ bitlen (n div 2)" by simp_all
    have "0 < bitlen (n div 2)" using bitlen_pos [OF pos] by simp
    then have b: "bitlen (n div 2) = Suc (bitlen (n div 2) - 1)" by simp
    have bn: "bitlen n = Suc (bitlen (n div 2))"
      using "1.prems" by (rule bitlen_pos)
    have "2 ^ bitlen (n div 2) \<le> 2 * (n div 2)"
      using lo by (subst b) simp
    moreover have "2 * (n div 2) \<le> n" by simp
    moreover have "n < 2 * (n div 2) + 2" by simp
    moreover have "2 * (n div 2) + 2 \<le> 2 * 2 ^ bitlen (n div 2)" using hi by simp
    ultimately have "2 ^ bitlen (n div 2) \<le> n \<and> n < 2 * 2 ^ bitlen (n div 2)"
      by linarith
    then show ?thesis unfolding bn by simp
  qed
qed

lemma ilog2_bounds:
  assumes "0 < x"
  shows "pow2 (ilog2 x) \<le> x \<and> x < pow2 (ilog2 x + 1)"
proof (cases "1 \<le> x")
  case True
  define n where "n = \<lfloor>x\<rfloor>"
  have n1: "0 < n" using True by (simp add: n_def)
  have nx: "of_int n \<le> x" "x < of_int n + 1"
    unfolding n_def by linarith+
  from bitlen_bounds [OF n1] have lo: "2 ^ (bitlen n - 1) \<le> n" and hi: "n < 2 ^ bitlen n"
    by simp_all
  have bpos: "0 < bitlen n" using bitlen_pos [OF n1] by simp
  have e: "ilog2 x = int (bitlen n - 1)"
    using True bpos by (simp add: ilog2_def n_def)
  have "(2::rat) ^ (bitlen n - 1) = of_int (2 ^ (bitlen n - 1))" by simp
  also have "\<dots> \<le> of_int n" using lo by (simp only: of_int_le_iff)
  also have "\<dots> \<le> x" by (rule nx)
  finally have A: "pow2 (ilog2 x) \<le> x" by (simp add: e pow2_def)
  have "n + 1 \<le> 2 ^ bitlen n" using hi by simp
  then have "(of_int (n + 1) :: rat) \<le> of_int (2 ^ bitlen n)"
    by (simp only: of_int_le_iff)
  then have "of_int n + 1 \<le> (2::rat) ^ bitlen n" by simp
  with nx(2) have "x < 2 ^ bitlen n" by (rule less_le_trans)
  moreover have "ilog2 x + 1 = int (bitlen n)" using bpos by (simp add: e)
  ultimately have B: "x < pow2 (ilog2 x + 1)" by (simp add: pow2_def)
  from A B show ?thesis ..
next
  case False
  then have x1: "x < 1" by simp
  define k where "k = \<lceil>1 / x\<rceil>"
  define m where "m = k - 1"
  have inv: "1 < 1 / x" using assms x1 by simp
  then have k2: "2 \<le> k" unfolding k_def by linarith
  then have m1: "0 < m" by (simp add: m_def)
  have kx: "1 / x \<le> of_int k" "of_int k - 1 < 1 / x"
    unfolding k_def by linarith+
  from bitlen_bounds [OF m1] have lo: "2 ^ (bitlen m - 1) \<le> m" and hi: "m < 2 ^ bitlen m"
    by simp_all
  have bpos: "0 < bitlen m" using bitlen_pos [OF m1] by simp
  have e: "ilog2 x = - int (bitlen m)"
    using False by (simp add: ilog2_def k_def m_def)
  have "k \<le> 2 ^ bitlen m" using hi by (simp add: m_def)
  then have "(of_int k :: rat) \<le> of_int (2 ^ bitlen m)" by (simp only: of_int_le_iff)
  also have "(of_int (2 ^ bitlen m) :: rat) = 2 ^ bitlen m" by simp
  finally have "1 / x \<le> 2 ^ bitlen m" using kx(1) by (rule order_trans [rotated])
  then have "1 \<le> 2 ^ bitlen m * x" using assms by (simp add: field_simps)
  then have A: "pow2 (ilog2 x) \<le> x"
    using bpos by (simp add: e pow2_def field_simps)
  have "(2::rat) ^ (bitlen m - 1) = of_int (2 ^ (bitlen m - 1))" by simp
  also have "\<dots> \<le> of_int m" using lo by (simp only: of_int_le_iff)
  also have "(of_int m :: rat) = of_int k - 1" by (simp add: m_def)
  also have "\<dots> < 1 / x" by (rule kx)
  finally have "2 ^ (bitlen m - 1) < 1 / x" .
  then have lt: "x * 2 ^ (bitlen m - 1) < 1" using assms by (simp add: field_simps)
  have B: "x < pow2 (ilog2 x + 1)"
  proof (cases "bitlen m = 1")
    case True
    then show ?thesis using x1 by (simp add: e pow2_def)
  next
    case F: False
    with bpos have "1 < bitlen m" by simp
    then have "ilog2 x + 1 < 0" "nat (- (ilog2 x + 1)) = bitlen m - 1"
      by (simp_all add: e)
    then show ?thesis using lt by (simp add: pow2_def field_simps)
  qed
  from A B show ?thesis ..
qed

lemma ilog2_mono:
  assumes "0 < x" "x \<le> y"
  shows "ilog2 x \<le> ilog2 y"
proof -
  have "pow2 (ilog2 x) \<le> x" using ilog2_bounds [OF assms(1)] by simp
  also have "x \<le> y" by fact
  also have "y < pow2 (ilog2 y + 1)" using ilog2_bounds [of y] assms by simp
  finally have "ilog2 x < ilog2 y + 1" by (rule pow2_less_cancel)
  then show ?thesis by simp
qed

lemma rhe_cases: "round_half_even x = \<lfloor>x\<rfloor> \<or> round_half_even x = \<lfloor>x\<rfloor> + 1"
  by (simp add: round_half_even_def Let_def)

lemma rhe_of_int: "round_half_even (of_int n) = n"
  by (simp add: round_half_even_def Let_def)

lemma rhe_ge_floor: "\<lfloor>x\<rfloor> \<le> round_half_even x"
  using rhe_cases [of x] by auto

lemma rhe_le_ceiling: "round_half_even x \<le> \<lceil>x\<rceil>"
proof (cases "x = of_int \<lfloor>x\<rfloor>")
  case True
  then have "round_half_even x = \<lfloor>x\<rfloor>" by (metis rhe_of_int)
  then show ?thesis by (simp add: floor_le_ceiling)
next
  case False
  then have "\<lceil>x\<rceil> = \<lfloor>x\<rfloor> + 1" by (simp add: ceiling_altdef)
  then show ?thesis using rhe_cases [of x] by auto
qed

lemma rhe_mono:
  assumes "x \<le> y"
  shows "round_half_even x \<le> round_half_even y"
proof (cases "\<lfloor>x\<rfloor> = \<lfloor>y\<rfloor>")
  case True
  have "x - of_int \<lfloor>x\<rfloor> \<le> y - of_int \<lfloor>y\<rfloor>" using assms True by simp
  then show ?thesis using True
    by (auto simp: round_half_even_def Let_def)
next
  case False
  with assms have "\<lfloor>x\<rfloor> < \<lfloor>y\<rfloor>" using floor_mono [OF assms] by simp
  then have "round_half_even x \<le> \<lfloor>y\<rfloor>" using rhe_cases [of x] by auto
  also have "\<dots> \<le> round_half_even y" by (rule rhe_ge_floor)
  finally show ?thesis .
qed


lemma fp_round_pos:
  "0 < x \<Longrightarrow> fp_round p qmin x
     = of_int (round_half_even (x / pow2 (quantum p qmin x))) * pow2 (quantum p qmin x)"
  by (simp add: fp_round_def quantum_def Let_def)

lemma fp_round_0: "fp_round p qmin 0 = 0"
  by (simp add: fp_round_def)

lemma fp_round_minus: "fp_round p qmin (- x) = - fp_round p qmin x"
  by (simp add: fp_round_def Let_def sgn_minus)

lemma fp_round_nonneg: "0 \<le> x \<Longrightarrow> 0 \<le> fp_round p qmin x"
proof (cases "x = 0")
  case True
  then show ?thesis by (simp add: fp_round_0)
next
  case False
  assume "0 \<le> x"
  with False have pos: "0 < x" by simp
  have "0 \<le> x / pow2 (quantum p qmin x)" using pos pow2_pos by (simp add: less_imp_le)
  then have "0 \<le> \<lfloor>x / pow2 (quantum p qmin x)\<rfloor>" by simp
  then have "0 \<le> round_half_even (x / pow2 (quantum p qmin x))"
    using rhe_ge_floor order_trans by blast
  then show ?thesis using pos pow2_pos [of "quantum p qmin x"]
    by (simp add: fp_round_pos less_imp_le)
qed

text \<open>Rounding never crosses a multiple of the quantum.\<close>

lemma fp_round_le_multiple:
  assumes "0 < x" "x \<le> of_int n * pow2 (quantum p qmin x)"
  shows "fp_round p qmin x \<le> of_int n * pow2 (quantum p qmin x)"
proof -
  let ?q = "pow2 (quantum p qmin x)"
  have qp: "0 < ?q" by (rule pow2_pos)
  have "x / ?q \<le> of_int n" using assms(2) qp by (simp add: field_simps)
  then have "round_half_even (x / ?q) \<le> round_half_even (of_int n)" by (rule rhe_mono)
  then have "round_half_even (x / ?q) \<le> n" by (simp add: rhe_of_int)
  then have "(of_int (round_half_even (x / ?q)) :: rat) \<le> of_int n" by simp
  then have "of_int (round_half_even (x / ?q)) * ?q \<le> of_int n * ?q"
    using qp by (simp add: mult_right_mono less_imp_le)
  then show ?thesis by (simp add: fp_round_pos [OF assms(1)])
qed

lemma fp_round_ge_multiple:
  assumes "0 < x" "of_int n * pow2 (quantum p qmin x) \<le> x"
  shows "of_int n * pow2 (quantum p qmin x) \<le> fp_round p qmin x"
proof -
  let ?q = "pow2 (quantum p qmin x)"
  have qp: "0 < ?q" by (rule pow2_pos)
  have "of_int n \<le> x / ?q" using assms(2) qp by (simp add: field_simps)
  then have "round_half_even (of_int n) \<le> round_half_even (x / ?q)" by (rule rhe_mono)
  then have "n \<le> round_half_even (x / ?q)" by (simp add: rhe_of_int)
  then have "(of_int n :: rat) \<le> of_int (round_half_even (x / ?q))" by simp
  then have "of_int n * ?q \<le> of_int (round_half_even (x / ?q)) * ?q"
    using qp by (simp add: mult_right_mono less_imp_le)
  then show ?thesis by (simp add: fp_round_pos [OF assms(1)])
qed

lemma pow2_multiple: "q \<le> t \<Longrightarrow> pow2 t = of_int (2 ^ nat (t - q)) * pow2 q"
proof -
  assume "q \<le> t"
  then have "pow2 (t - q) = of_int (2 ^ nat (t - q))" by (simp add: pow2_nat)
  moreover have "pow2 t = pow2 (t - q) * pow2 q" using pow2_add [of "t - q" q] by simp
  ultimately show ?thesis by simp
qed

lemma quantum_mono: "0 < x \<Longrightarrow> x \<le> y \<Longrightarrow> quantum p qmin x \<le> quantum p qmin y"
  using ilog2_mono [of x y] by (simp add: quantum_def max_def)

lemma fp_round_mono_pos:
  assumes "0 < x" "x \<le> y" and "0 < p"
  shows "fp_round p qmin x \<le> fp_round p qmin y"
proof -
  have ypos: "0 < y" using assms by simp
  let ?qx = "quantum p qmin x" and ?qy = "quantum p qmin y"
  have qle: "?qx \<le> ?qy" using assms(1,2) by (rule quantum_mono)
  show ?thesis
  proof (cases "?qx = ?qy")
    case True
    have "x / pow2 ?qy \<le> y / pow2 ?qy"
      using assms(2) pow2_pos [of ?qy] by (simp add: divide_right_mono less_imp_le)
    then have "round_half_even (x / pow2 ?qy) \<le> round_half_even (y / pow2 ?qy)"
      by (rule rhe_mono)
    then have "(of_int (round_half_even (x / pow2 ?qy)) :: rat)
                 \<le> of_int (round_half_even (y / pow2 ?qy))" by simp
    then have "of_int (round_half_even (x / pow2 ?qy)) * pow2 ?qy
                 \<le> of_int (round_half_even (y / pow2 ?qy)) * pow2 ?qy"
      using pow2_pos [of ?qy] by (simp add: mult_right_mono less_imp_le)
    then show ?thesis
      using True by (simp add: fp_round_pos [OF assms(1)] fp_round_pos [OF ypos])
  next
    case False
    with qle have lt: "?qx < ?qy" by simp
    define t where "t = ilog2 y"
    have qy: "?qy = t - (int p - 1)" and ex: "ilog2 x < t"
      using lt by (auto simp: quantum_def t_def max_def abs_of_pos assms ypos split: if_splits)
    have qmin: "qmin \<le> ?qx" by (simp add: quantum_def)
    have "qmin < ?qy" using lt qmin by simp
    have tq: "?qy \<le> t" using qy \<open>0 < p\<close> by simp
    have tqx: "?qx \<le> t" using lt tq by simp
    have "x < pow2 (ilog2 x + 1)" using ilog2_bounds [OF assms(1)] by simp
    also have "\<dots> \<le> pow2 t" using ex by (intro pow2_mono) simp
    finally have xt: "x \<le> pow2 t" by simp
    have ty: "pow2 t \<le> y" using ilog2_bounds [OF ypos] by (simp add: t_def)
    have "fp_round p qmin x \<le> pow2 t"
      using fp_round_le_multiple [OF assms(1), of "2 ^ nat (t - ?qx)" p qmin]
            xt pow2_multiple [OF tqx] by simp
    also have "pow2 t \<le> fp_round p qmin y"
      using fp_round_ge_multiple [OF ypos, of "2 ^ nat (t - ?qy)" p qmin]
            ty pow2_multiple [OF tq] by simp
    finally show ?thesis .
  qed
qed

lemma fp_round_mono:
  assumes "x \<le> y" and "0 < p"
  shows "fp_round p qmin x \<le> fp_round p qmin y"
proof -
  consider "0 < x" | "x \<le> 0" "0 \<le> y" | "y < 0" by linarith
  then show ?thesis
  proof cases
    case 1
    then show ?thesis using assms by (rule fp_round_mono_pos)
  next
    case 2
    have "fp_round p qmin x = - fp_round p qmin (- x)" by (simp add: fp_round_minus)
    moreover have "0 \<le> fp_round p qmin (- x)" using 2 by (intro fp_round_nonneg) simp
    moreover have "0 \<le> fp_round p qmin y" using 2 by (intro fp_round_nonneg)
    ultimately show ?thesis by simp
  next
    case 3
    then have "0 < - y" "- y \<le> - x" using assms by simp_all
    then have "fp_round p qmin (- y) \<le> fp_round p qmin (- x)"
      using assms(2) by (rule fp_round_mono_pos)
    then show ?thesis by (simp add: fp_round_minus)
  qed
qed

section \<open>The segment encoder\<close>

lemmas pin_defs = SEGMENT_A_def SEGMENT_B_def SEGMENT_C_def SEGMENT_D_def SEGMENT_E_def
  SEGMENT_F_def SEGMENT_G_def SEGMENT_DP_def DIGIT_1_def DIGIT_2_def DIGIT_3_def DIGIT_4_def
  LOW_def HIGH_def

text \<open>
  C5: for every digit 0 to 9 the table entry lights exactly the segments of the standard
  seven-segment glyph of that digit, so it has the glyph's number of one bits; the entry
  for 0 lights a, b, c, d, e, f and not g, the entry for 1 lights only b and c.
\<close>

theorem segmentPatterns_canonical:
  "map lit_segments segmentPatterns = canonical_glyph
   \<and> map (\<lambda>m. popcount (nat m)) segmentPatterns = map length canonical_glyph
   \<and> map length canonical_glyph = [6, 2, 5, 5, 4, 5, 6, 3, 7, 6]
   \<and> lit_segments (segmentPatterns ! 0)
       = [SEGMENT_A, SEGMENT_B, SEGMENT_C, SEGMENT_D, SEGMENT_E, SEGMENT_F]
   \<and> lit_segments (segmentPatterns ! 1) = [SEGMENT_B, SEGMENT_C]"
  by code_simp

text \<open>
  C10: for every digit position, when \<^verbatim>\<open>displayMinusSign\<close> reaches the two operations
  that select the digit, segment g is high, the segments a to f and the decimal point are
  low, and no digit is selected, whatever the pins were before the call.
\<close>

theorem displayMinusSign_pattern:
  "\<exists>pre. displayMinusSign digit
            = pre @ [PinMode (digit + DIGIT_1 - 1) OUTPUT,
                     DigitalWrite (digit + DIGIT_1 - 1) LOW]
         \<and> map (levels (run pre s)) segment_pins = [LOW, LOW, LOW, LOW, LOW, LOW, HIGH, LOW]
         \<and> blanked (run pre s)"
  by (rule exI [of _ "extinguishDigits
        @ map (\<lambda>currentSegment. DigitalWrite currentSegment LOW) (rev [SEGMENT_A..SEGMENT_F])
        @ [DigitalWrite SEGMENT_DP LOW] @ [DigitalWrite SEGMENT_G HIGH]"])
     (simp add: displayMinusSign_def extinguishDigits_def run_def segment_pins_def blanked_def
        asserted_def digit_pins_def pin_defs Let_def)

text \<open>
  C6: \<^verbatim>\<open>displayDigit\<close> never reads outside the pattern table, and for a value outside
  0 to 9 it writes low to each of the seven segments a to g: the blank pattern.
\<close>

theorem displayDigit_blank_fallback:
  "(\<exists>es. displayDigit digit val decimalPoint = Some es)
   \<and> (val < 0 \<or> 9 < val \<longrightarrow>
        displayDigit digit val decimalPoint
          = Some (extinguishDigits
                  @ map (\<lambda>currentSegment. DigitalWrite currentSegment LOW)
                        (rev [SEGMENT_A..SEGMENT_G])
                  @ [DigitalWrite SEGMENT_DP decimalPoint,
                     PinMode (digit + DIGIT_1 - 1) OUTPUT,
                     DigitalWrite (digit + DIGIT_1 - 1) LOW]))"
  by (auto simp: displayDigit_def array_read_def segmentPatterns_def pin_defs Let_def)

theorem displayDigit_blank_fallback_witness:
  "displayDigit 4 10 True
     = Some [PinMode 10 INPUT, PinMode 11 INPUT, PinMode 12 INPUT, PinMode 13 INPUT,
             DigitalWrite 8 False, DigitalWrite 7 False, DigitalWrite 6 False,
             DigitalWrite 5 False, DigitalWrite 4 False, DigitalWrite 3 False,
             DigitalWrite 2 False, DigitalWrite 9 True, PinMode 13 OUTPUT,
             DigitalWrite 13 False]
   \<and> displayDigit 1 (- 1) False
     = Some [PinMode 10 INPUT, PinMode 11 INPUT, PinMode 12 INPUT, PinMode 13 INPUT,
             DigitalWrite 8 False, DigitalWrite 7 False, DigitalWrite 6 False,
             DigitalWrite 5 False, DigitalWrite 4 False, DigitalWrite 3 False,
             DigitalWrite 2 False, DigitalWrite 9 False, PinMode 10 OUTPUT,
             DigitalWrite 10 False]"
  using displayDigit_blank_fallback [of 4 10 True] displayDigit_blank_fallback [of 1 "- 1" False]
  by (simp add: extinguishDigits_def pin_defs)

section \<open>The refresh cycle of displayNumber\<close>

lemma round32_mono: "x \<le> y \<Longrightarrow> round32 x \<le> round32 y"
  by (simp add: round32_def fp_round_mono)


lemma fp_round_fixpoint:
  assumes "0 < x" "x = of_int n * pow2 (quantum p qmin x)"
  shows "fp_round p qmin x = x"
proof (rule antisym)
  show "fp_round p qmin x \<le> x"
    using fp_round_le_multiple [OF assms(1), of n p qmin] assms(2) by simp
  show "x \<le> fp_round p qmin x"
    using fp_round_ge_multiple [OF assms(1), of n p qmin] assms(2) by simp
qed

lemma round32_of_int:
  assumes "0 \<le> i" "i < 2 ^ 24"
  shows "round32 (of_int i) = of_int i"
proof (cases "i = 0")
  case True
  then show ?thesis by (simp add: round32_def fp_round_0)
next
  case False
  with assms have pos: "0 < (of_int i :: rat)" by simp
  let ?x = "of_int i :: rat"
  let ?q = "quantum 24 (- 149) ?x"
  have "pow2 (ilog2 ?x) \<le> ?x" using ilog2_bounds [OF pos] by simp
  also have "?x < of_int (2 ^ 24)" using assms(2) by (simp only: of_int_less_iff)
  also have "(of_int (2 ^ 24) :: rat) = pow2 24" by (simp add: pow2_def)
  finally have "ilog2 ?x < 24" by (rule pow2_less_cancel)
  then have q0: "?q \<le> 0" using pos by (simp add: quantum_def abs_of_pos)
  have "pow2 0 = pow2 (- ?q) * pow2 ?q" using pow2_add [of "- ?q" ?q] by simp
  moreover have "pow2 (- ?q) = of_int (2 ^ nat (- ?q))" using q0 by (simp add: pow2_nat)
  ultimately have "?x = of_int (i * 2 ^ nat (- ?q)) * pow2 ?q"
    by (simp add: pow2_def)
  then show ?thesis unfolding round32_def using pos by (intro fp_round_fixpoint) 
qed

lemma scalingFactor_eq: "scalingFactor = 10"
  by code_simp


lemma minimumValue_val_eq: "minimumValue_val = - (13094093 / 131072)"
  by code_simp

lemma maximumValue_val_eq: "maximumValue_val = 8191181 / 8192"
  by code_simp

lemma round32_0: "round32 0 = 0"
  by (simp add: round32_def fp_round_0)

lemma round32_1: "round32 1 = 1"
  using round32_of_int [of 1] by simp

lemma round32_10: "round32 10 = 10"
  using round32_of_int [of 10] by simp


lemma round32_maximumValue: "round32 maximumValue_val = maximumValue_val"
  by code_simp

lemma to_float_bounded:
  assumes "lo \<le> x" "x \<le> hi" "round32 lo = lo" "round32 hi = hi"
    and "- (2 ^ 128) < lo" "hi < 2 ^ 128"
  shows "to_float x = Finite (round32 x) \<and> lo \<le> round32 x \<and> round32 x \<le> hi"
proof -
  have "lo \<le> round32 x" using round32_mono [OF assms(1)] assms(3) by simp
  moreover have "round32 x \<le> hi" using round32_mono [OF assms(2)] assms(4) by simp
  ultimately show ?thesis using assms(5,6) by (simp add: to_float_def Let_def)
qed


lemma fle_Finite: "fle (Finite a) (Finite b) = (a \<le> b)"
  by (auto simp: fle_def)

lemma float_to_int_small:
  assumes "0 \<le> y" "y < 32768"
  shows "float_to_int (Finite y) = Some \<lfloor>y\<rfloor>"
proof -
  have "0 \<le> \<lfloor>y\<rfloor>" using assms(1) by simp
  moreover have "\<lfloor>y\<rfloor> < 32768" using assms(2) by (simp add: floor_less_iff)
  ultimately show ?thesis using assms(1) by (simp add: INT_MIN_def INT_MAX_def)
qed

lemma int_to_float_small:
  assumes "0 \<le> i" "i < 2 ^ 24"
  shows "int_to_float i = Finite (of_int i)"
proof -
  have "(of_int i :: rat) < of_int (2 ^ 24)" using assms(2) by (simp only: of_int_less_iff)
  then have "(of_int i :: rat) < 2 ^ 128" by simp
  moreover have "- (2 ^ 128) < (of_int i :: rat)"
    using assms(1) by (simp add: less_le_trans [of _ 0])
  ultimately show ?thesis
    using round32_of_int [OF assms] by (simp add: int_to_float_def to_float_def)
qed

lemma fractionalPart_bounds:
  assumes "0 \<le> y" "y < 1000"
  shows "\<exists>fractionalPart.
           float_to_int (fmul (fsub (Finite y) (int_to_float \<lfloor>y\<rfloor>))
                              (int_to_float scalingFactor)) = Some fractionalPart
           \<and> 0 \<le> fractionalPart \<and> fractionalPart \<le> 10"
proof -
  have ip: "0 \<le> \<lfloor>y\<rfloor>" "\<lfloor>y\<rfloor> < 2 ^ 24"
    using assms by (simp_all add: floor_less_iff)
  have d: "0 \<le> y - of_int \<lfloor>y\<rfloor>" "y - of_int \<lfloor>y\<rfloor> \<le> 1" by linarith+
  from to_float_bounded [OF d round32_0 round32_1]
  obtain r1 where r1: "to_float (y - of_int \<lfloor>y\<rfloor>) = Finite r1" "0 \<le> r1" "r1 \<le> 1"
    by auto
  have "0 \<le> r1 * 10" "r1 * 10 \<le> 10" using r1 by simp_all
  from to_float_bounded [OF this round32_0 round32_10]
  obtain r2 where r2: "to_float (r1 * 10) = Finite r2" "0 \<le> r2" "r2 \<le> 10"
    by auto
  have "fmul (fsub (Finite y) (int_to_float \<lfloor>y\<rfloor>)) (int_to_float scalingFactor) = Finite r2"
    using r1 r2 by (simp add: int_to_float_small [OF ip] scalingFactor_eq
                      int_to_float_small [of 10] fsub_def)
  moreover have "float_to_int (Finite r2) = Some \<lfloor>r2\<rfloor>"
    using r2 by (intro float_to_int_small) simp_all
  moreover have "0 \<le> \<lfloor>r2\<rfloor>" "\<lfloor>r2\<rfloor> \<le> 10" using r2 by (simp_all add: floor_le_iff)
  ultimately show ?thesis by simp
qed

lemma c_div_nonneg: "0 \<le> a \<Longrightarrow> c_div a 10 = a div 10"
  by (cases "a = 0") (simp_all add: c_div_def)

lemma c_mod_nonneg: "0 \<le> a \<Longrightarrow> c_mod a 10 = a mod 10"
  by (simp add: c_mod_def c_div_nonneg minus_div_mult_eq_mod)

lemma with_dwell_Cons: "with_dwell (c # rs) = c # Delay digitTimeOn # with_dwell rs"
  by (simp add: with_dwell_def)

lemma with_dwell_append: "with_dwell (rs @ rs') = with_dwell rs @ with_dwell rs'"
  by (simp add: with_dwell_def)

lemma integer_loop_shape:
  "0 \<le> n \<Longrightarrow>
   \<exists>rs. integer_loop n dp cd = (with_dwell rs, cd - int (length rs))
        \<and> rs \<noteq> [] \<and> list_all is_digit_step rs
        \<and> map position rs = rev [cd - int (length rs) + 1..cd]
        \<and> (length rs = 1 \<or> 10 ^ (length rs - 1) \<le> n)"
proof (induction n dp cd rule: integer_loop.induct)
  case (1 n dp cd)
  have dv: "c_div n 10 = n div 10" and md: "c_mod n 10 = n mod 10"
    using "1.prems" by (simp_all add: c_div_nonneg c_mod_nonneg)
  let ?c = "DisplayDigit cd (n mod 10) dp"
  have dstep: "is_digit_step ?c" by simp
  show ?case
  proof (cases "0 < n div 10")
    case False
    then have "integer_loop n dp cd = (with_dwell [?c], cd - int (length [?c]))"
      by (subst integer_loop.simps) (simp add: dv md with_dwell_def)
    then show ?thesis using dstep by (intro exI [of _ "[?c]"]) simp
  next
    case True
    then have pos: "0 < c_div n 10" by (simp add: dv)
    have "0 \<le> c_div n 10" using pos by simp
    from "1.IH" [OF pos this] obtain rs where
      rs: "integer_loop (n div 10) False (cd - 1) = (with_dwell rs, cd - 1 - int (length rs))"
        "rs \<noteq> []" "list_all is_digit_step rs"
        "map position rs = rev [cd - 1 - int (length rs) + 1..cd - 1]"
        "length rs = 1 \<or> 10 ^ (length rs - 1) \<le> n div 10"
      by (auto simp: dv)
    have il: "integer_loop n dp cd = (with_dwell (?c # rs), cd - int (length (?c # rs)))"
      using True rs(1) by (subst integer_loop.simps) (simp add: dv md with_dwell_Cons)
    have "[cd - int (length rs)..cd] = [cd - int (length rs)..cd - 1] @ [cd]"
      by (rule upto_rec2) simp
    then have ps: "map position (?c # rs) = rev [cd - int (length (?c # rs)) + 1..cd]"
      using rs(4) by simp
    have "10 ^ length rs \<le> n"
    proof -
      have "10 ^ (length rs - 1) \<le> n div 10"
        using rs(5) True by (cases "length rs = 1") auto
      then have "10 * 10 ^ (length rs - 1) \<le> 10 * (n div 10)" by simp
      also have "\<dots> \<le> n" by simp
      finally show ?thesis using rs(2) by (cases rs) simp_all
    qed
    then show ?thesis using il ps rs(3) dstep
      by (intro exI [of _ "?c # rs"]) simp
  qed
qed

lemma fractional_loop_once:
  "fractional_loop (nat scaleOfNumber) fp cd
     = (with_dwell [DisplayDigit cd (c_mod fp 10) False], cd - 1)"
  by (simp add: scaleOfNumber_def with_dwell_def)

lemma is_digit_step_render: "is_digit_step c \<Longrightarrow> is_render c"
  by (cases c) simp_all

lemma list_all_digit_render: "list_all is_digit_step rs \<Longrightarrow> list_all is_render rs"
  by (induction rs) (simp_all add: is_digit_step_render)

lemma magnitude_shape:
  assumes "0 \<le> y" "y < 10 ^ m" "0 < m" "m \<le> 3"
  shows "\<exists>ds. (\<exists>fp. float_to_int (fmul (fsub (Finite y) (int_to_float \<lfloor>y\<rfloor>))
                                      (int_to_float scalingFactor)) = Some fp
                    \<and> fractional_loop (nat scaleOfNumber) fp numberOfDigits
                        = (with_dwell [hd ds], numberOfDigits - 1))
            \<and> integer_loop \<lfloor>y\<rfloor> True (numberOfDigits - 1)
                = (with_dwell (tl ds), numberOfDigits - int (length ds))
            \<and> 2 \<le> length ds \<and> length ds \<le> Suc m \<and> list_all is_digit_step ds
            \<and> map position ds = rev [numberOfDigits - int (length ds) + 1..numberOfDigits]"
proof -
  have "(10::rat) ^ m \<le> 10 ^ 3" using assms(4) by (intro power_increasing) simp_all
  then have y1000: "y < 1000" using assms(2) by simp
  from fractionalPart_bounds [OF assms(1) y1000] obtain fp where
    fp: "float_to_int (fmul (fsub (Finite y) (int_to_float \<lfloor>y\<rfloor>))
                            (int_to_float scalingFactor)) = Some fp" "0 \<le> fp" "fp \<le> 10"
    by blast
  have ip: "0 \<le> \<lfloor>y\<rfloor>" using assms(1) by simp
  from integer_loop_shape [OF ip, of True "numberOfDigits - 1"] obtain rs where
    rs: "integer_loop \<lfloor>y\<rfloor> True (numberOfDigits - 1)
           = (with_dwell rs, numberOfDigits - 1 - int (length rs))"
      "rs \<noteq> []" "list_all is_digit_step rs"
      "map position rs = rev [numberOfDigits - 1 - int (length rs) + 1..numberOfDigits - 1]"
      "length rs = 1 \<or> 10 ^ (length rs - 1) \<le> \<lfloor>y\<rfloor>"
    by blast
  let ?d = "DisplayDigit numberOfDigits (c_mod fp 10) False"
  have "0 \<le> fp mod 10" "fp mod 10 \<le> 9" by simp_all
  then have d: "is_digit_step ?d" using fp(2) by (simp add: c_mod_nonneg)
  have len: "length rs \<le> m"
  proof (rule ccontr)
    assume "\<not> length rs \<le> m"
    then have gt: "m \<le> length rs - 1" "length rs \<noteq> 1" using assms(3) by simp_all
    then have "(10::int) ^ m \<le> 10 ^ (length rs - 1)" by (intro power_increasing) simp_all
    also have "\<dots> \<le> \<lfloor>y\<rfloor>" using rs(5) gt by simp
    finally have "of_int (10 ^ m) \<le> y" by (simp add: le_floor_iff)
    with assms(2) show False by simp
  qed
  have "[numberOfDigits - int (length rs)..numberOfDigits]
          = [numberOfDigits - int (length rs)..numberOfDigits - 1] @ [numberOfDigits]"
    by (rule upto_rec2) simp
  then have ps: "map position (?d # rs)
                   = rev [numberOfDigits - int (length (?d # rs)) + 1..numberOfDigits]"
    using rs(4) by simp
  show ?thesis
    using fp(1) rs(1,2,3) d len ps
    by (intro exI [of _ "?d # rs"]) (auto simp: fractional_loop_once Suc_le_eq)
qed

lemma minimumValue_val_bounds: "- 100 < minimumValue_val" "minimumValue_val < 0"
  by (simp_all add: minimumValue_val_eq)

lemma maximumValue_val_bounds: "0 < maximumValue_val" "maximumValue_val < 1000"
  by (simp_all add: maximumValue_val_eq)

lemma displayNumber_out_of_range:
  assumes "\<not> (fle minimumValue v \<and> fle v maximumValue)"
  shows "displayNumber v = Some [ExtinguishDigits, Delay (digitTimeOn * numberOfDigits)]"
  unfolding displayNumber_def Let_def using assms by (subst if_not_P) simp_all

lemma displayNumber_nonneg:
  assumes "0 \<le> x" "x \<le> maximumValue_val"
  shows "\<exists>ds. displayNumber (Finite x)
                 = Some (with_dwell ds
                         @ [ExtinguishDigits,
                            Delay (digitTimeOn * (numberOfDigits - int (length ds)))])
              \<and> 2 \<le> length ds \<and> length ds \<le> 4 \<and> list_all is_digit_step ds
              \<and> map position ds = rev [numberOfDigits - int (length ds) + 1..numberOfDigits]"
proof -
  have "x < 10 ^ 3" using assms(2) maximumValue_val_bounds by simp
  from magnitude_shape [OF assms(1) this] obtain ds fp where
    ds: "float_to_int (fmul (fsub (Finite x) (int_to_float \<lfloor>x\<rfloor>))
                            (int_to_float scalingFactor)) = Some fp"
      "fractional_loop (nat scaleOfNumber) fp numberOfDigits
         = (with_dwell [hd ds], numberOfDigits - 1)"
      "integer_loop \<lfloor>x\<rfloor> True (numberOfDigits - 1)
         = (with_dwell (tl ds), numberOfDigits - int (length ds))"
      "2 \<le> length ds" "length ds \<le> Suc 3" "list_all is_digit_step ds"
      "map position ds = rev [numberOfDigits - int (length ds) + 1..numberOfDigits]"
    by auto
  have guard: "fle minimumValue (Finite x)" "fle (Finite x) maximumValue" "\<not> flt (Finite x) (Finite 0)"
    using assms minimumValue_val_bounds
    by (simp_all add: minimumValue_def maximumValue_def fle_Finite)
  have fi: "float_to_int (Finite x) = Some \<lfloor>x\<rfloor>"
    using assms maximumValue_val_bounds by (intro float_to_int_small) simp_all
  have hdtl: "with_dwell [hd ds] @ with_dwell (tl ds) = with_dwell ds"
    using ds(4) by (cases ds) (simp_all add: with_dwell_def)
  have "displayNumber (Finite x)
          = Some (with_dwell ds
                  @ [ExtinguishDigits, Delay (digitTimeOn * (numberOfDigits - int (length ds)))])"
    unfolding displayNumber_def Let_def
    by (simp only: guard fi ds(1,2,3) if_True if_False option.case prod.case simp_thms)
       (simp add: hdtl [symmetric])
  then show ?thesis using ds(4,5,6,7) by (intro exI [of _ ds]) simp
qed

lemma with_dwell_Nil: "with_dwell [] = []"
  by (simp add: with_dwell_def)

lemma displayNumber_negative:
  assumes "minimumValue_val \<le> x" "x < 0"
  shows "\<exists>ds. displayNumber (Finite x)
                 = Some (with_dwell (ds @ [DisplayMinusSign (numberOfDigits - int (length ds))])
                         @ [ExtinguishDigits,
                            Delay (digitTimeOn * (numberOfDigits - int (length ds) - 1))])
              \<and> 2 \<le> length ds \<and> length ds \<le> 3 \<and> list_all is_digit_step ds
              \<and> map position ds = rev [numberOfDigits - int (length ds) + 1..numberOfDigits]"
proof -
  have y: "0 \<le> - x" "- x < 10 ^ 2" using assms minimumValue_val_bounds by simp_all
  from magnitude_shape [OF y] obtain ds fp where
    ds: "float_to_int (fmul (fsub (Finite (- x)) (int_to_float \<lfloor>- x\<rfloor>))
                            (int_to_float scalingFactor)) = Some fp"
      "fractional_loop (nat scaleOfNumber) fp numberOfDigits
         = (with_dwell [hd ds], numberOfDigits - 1)"
      "integer_loop \<lfloor>- x\<rfloor> True (numberOfDigits - 1)
         = (with_dwell (tl ds), numberOfDigits - int (length ds))"
      "2 \<le> length ds" "length ds \<le> Suc 2" "list_all is_digit_step ds"
      "map position ds = rev [numberOfDigits - int (length ds) + 1..numberOfDigits]"
    by auto
  have guard: "fle minimumValue (Finite x)" "fle (Finite x) maximumValue" "flt (Finite x) (Finite 0)"
    using assms maximumValue_val_bounds
    by (simp_all add: minimumValue_def maximumValue_def fle_Finite)
  have fi: "float_to_int (Finite (- x)) = Some \<lfloor>- x\<rfloor>"
    using y by (intro float_to_int_small) simp_all
  have hdtl: "with_dwell [hd ds] @ with_dwell (tl ds) = with_dwell ds"
    using ds(4) by (cases ds) (simp_all add: with_dwell_def)
  have "displayNumber (Finite x)
          = Some (with_dwell (ds @ [DisplayMinusSign (numberOfDigits - int (length ds))])
                  @ [ExtinguishDigits,
                     Delay (digitTimeOn * (numberOfDigits - int (length ds) - 1))])"
    unfolding displayNumber_def Let_def
    by (simp only: guard fi ds(1,2,3) fneg.simps if_True if_False option.case prod.case simp_thms)
       (simp add: hdtl [symmetric] with_dwell_append with_dwell_Cons [of _ "[]"] with_dwell_Nil)
  then show ?thesis using ds(4,5,6,7) by (intro exI [of _ ds]) simp
qed

lemma displayNumber_in_range:
  assumes "minimumValue_val \<le> x" "x \<le> maximumValue_val"
  shows "\<exists>rs. displayNumber (Finite x)
                 = Some (with_dwell rs
                         @ [ExtinguishDigits,
                            Delay (digitTimeOn * (numberOfDigits - int (length rs)))])
              \<and> 2 \<le> length rs \<and> int (length rs) \<le> numberOfDigits \<and> list_all is_render rs
              \<and> map position rs = rev [numberOfDigits - int (length rs) + 1..numberOfDigits]
              \<and> is_digit_step (hd rs)"
proof (cases "x < 0")
  case False
  then have "0 \<le> x" by simp
  from displayNumber_nonneg [OF this assms(2)] obtain ds where
    ds: "displayNumber (Finite x)
           = Some (with_dwell ds
                   @ [ExtinguishDigits, Delay (digitTimeOn * (numberOfDigits - int (length ds)))])"
      "2 \<le> length ds" "length ds \<le> 4" "list_all is_digit_step ds"
      "map position ds = rev [numberOfDigits - int (length ds) + 1..numberOfDigits]"
    by blast
  have "is_digit_step (hd ds)" using ds(2,4) by (cases ds) simp_all
  then show ?thesis
    using ds by (intro exI [of _ ds]) (simp add: list_all_digit_render numberOfDigits_def)
next
  case True
  from displayNumber_negative [OF assms(1) True] obtain ds where
    ds: "displayNumber (Finite x)
           = Some (with_dwell (ds @ [DisplayMinusSign (numberOfDigits - int (length ds))])
                   @ [ExtinguishDigits,
                      Delay (digitTimeOn * (numberOfDigits - int (length ds) - 1))])"
      "2 \<le> length ds" "length ds \<le> 3" "list_all is_digit_step ds"
      "map position ds = rev [numberOfDigits - int (length ds) + 1..numberOfDigits]"
    by blast
  let ?rs = "ds @ [DisplayMinusSign (numberOfDigits - int (length ds))]"
  have "[numberOfDigits - int (length ds)..numberOfDigits]
          = (numberOfDigits - int (length ds))
            # [numberOfDigits - int (length ds) + 1..numberOfDigits]"
    by (rule upto_rec1) simp
  then have ps: "map position ?rs = rev [numberOfDigits - int (length ?rs) + 1..numberOfDigits]"
    using ds(5) by simp
  have hd: "is_digit_step (hd ?rs)" using ds(2,4) by (cases ds) simp_all
  have "numberOfDigits - int (length ds) - 1 = numberOfDigits - int (length ?rs)" by simp
  then show ?thesis
    using ds(1,2,3,4) ps hd
    by (intro exI [of _ ?rs]) (simp add: list_all_digit_render numberOfDigits_def)
qed

lemma total_delay_append: "total_delay (a @ b) = total_delay a + total_delay b"
  by (simp add: total_delay_def)

lemma delay_of_render: "is_render c \<Longrightarrow> delay_of c = 0"
  by (cases c) simp_all

lemma total_delay_steps:
  "list_all is_render rs \<Longrightarrow> total_delay (with_dwell rs) = digitTimeOn * int (length rs)"
  by (induction rs)
     (simp_all add: with_dwell_Cons total_delay_def with_dwell_def delay_of_render algebra_simps)

lemma guard_Finite:
  "(fle minimumValue (Finite x) \<and> fle (Finite x) maximumValue)
     = (minimumValue_val \<le> x \<and> x \<le> maximumValue_val)"
  by (simp add: minimumValue_def maximumValue_def fle_Finite)

text \<open>
  C1: for every \<^verbatim>\<open>float\<close> argument, in the valid range or not (NaN and the infinities
  included), \<^verbatim>\<open>displayNumber\<close> returns, and the calls it makes are \<open>k\<close> render steps, each
  followed by one delay of \<^verbatim>\<open>digitTimeOn\<close>, then \<^verbatim>\<open>extinguishDigits\<close> and one delay of
  \<^verbatim>\<open>digitTimeOn * (numberOfDigits - k)\<close>, with \<open>k \<le> numberOfDigits\<close>; the delays add up to
  \<^verbatim>\<open>numberOfDigits * digitTimeOn\<close> microseconds whatever the value.
\<close>

theorem displayNumber_cycle_duration:
  "\<exists>calls steps.
      displayNumber v = Some calls
    \<and> calls = with_dwell steps
              @ [ExtinguishDigits, Delay (digitTimeOn * (numberOfDigits - int (length steps)))]
    \<and> list_all is_render steps
    \<and> int (length steps) \<le> numberOfDigits
    \<and> total_delay calls = numberOfDigits * digitTimeOn"
proof (cases "fle minimumValue v \<and> fle v maximumValue")
  case False
  then have "displayNumber v = Some [ExtinguishDigits, Delay (digitTimeOn * numberOfDigits)]"
    by (rule displayNumber_out_of_range)
  then show ?thesis
    by (intro exI [of _ "[ExtinguishDigits, Delay (digitTimeOn * numberOfDigits)]"] exI [of _ "[]"])
       (simp add: with_dwell_def total_delay_def numberOfDigits_def)
next
  case True
  then obtain x where v: "v = Finite x"
    by (cases v) (simp_all add: fle_def minimumValue_def maximumValue_def)
  with True have "minimumValue_val \<le> x" "x \<le> maximumValue_val"
    by (simp_all add: guard_Finite)
  from displayNumber_in_range [OF this] obtain rs where
    rs: "displayNumber (Finite x)
           = Some (with_dwell rs
                   @ [ExtinguishDigits, Delay (digitTimeOn * (numberOfDigits - int (length rs)))])"
      "int (length rs) \<le> numberOfDigits" "list_all is_render rs"
    by blast
  have "total_delay (with_dwell rs
          @ [ExtinguishDigits, Delay (digitTimeOn * (numberOfDigits - int (length rs)))])
        = numberOfDigits * digitTimeOn"
    using rs(3) by (simp add: total_delay_append total_delay_steps)
                   (simp add: total_delay_def algebra_simps)
  then show ?thesis using rs v
    by (intro exI [of _ "with_dwell rs
          @ [ExtinguishDigits, Delay (digitTimeOn * (numberOfDigits - int (length rs)))]"]
          exI [of _ rs]) simp
qed

section \<open>Arguments outside the range, and two worked values\<close>

lemma extinguishDigits_blanks: "blanked (run extinguishDigits s)"
  by (simp add: extinguishDigits_def run_def blanked_def asserted_def digit_pins_def pin_defs)

lemma spec_range_in_guard:
  assumes "fle minimumValue v" "fle v maximumValue"
  shows "flt (Finite (- 100)) v \<and> flt v (Finite 1000)"
proof -
  from assms obtain x where v: "v = Finite x"
    by (cases v) (simp_all add: fle_def minimumValue_def maximumValue_def)
  with assms have "minimumValue_val \<le> x" "x \<le> maximumValue_val"
    by (simp_all add: minimumValue_def maximumValue_def fle_Finite)
  then show ?thesis using minimumValue_val_bounds maximumValue_val_bounds by (simp add: v)
qed

text \<open>
  C2: for every argument outside the range that the guard of \<^verbatim>\<open>displayNumber\<close> accepts,
  and so for every argument that is not strictly between \<open>-100\<close> and \<open>1000\<close> (NaN
  included), \<^verbatim>\<open>displayNumber\<close> returns after \<^verbatim>\<open>extinguishDigits\<close> and one delay of the
  whole cycle: no render step is made, the only pin operations turn the four digit pins
  into inputs, no segment is written, and no digit is selected during the delay.
\<close>

theorem displayNumber_blank_outside_range:
  assumes "\<not> (fle minimumValue v \<and> fle v maximumValue)
           \<or> \<not> (flt (Finite (- 100)) v \<and> flt v (Finite 1000))"
  shows "displayNumber v = Some [ExtinguishDigits, Delay (digitTimeOn * numberOfDigits)]
         \<and> run_calls [ExtinguishDigits, Delay (digitTimeOn * numberOfDigits)]
             = Some [PinMode DIGIT_1 INPUT, PinMode DIGIT_2 INPUT, PinMode DIGIT_3 INPUT,
                     PinMode DIGIT_4 INPUT, DelayMicroseconds (digitTimeOn * numberOfDigits)]
         \<and> blanked (run extinguishDigits s)"
proof -
  have "\<not> (fle minimumValue v \<and> fle v maximumValue)"
    using assms spec_range_in_guard by blast
  then have "displayNumber v = Some [ExtinguishDigits, Delay (digitTimeOn * numberOfDigits)]"
    by (rule displayNumber_out_of_range)
  moreover have "run_calls [ExtinguishDigits, Delay (digitTimeOn * numberOfDigits)]
             = Some [PinMode DIGIT_1 INPUT, PinMode DIGIT_2 INPUT, PinMode DIGIT_3 INPUT,
                     PinMode DIGIT_4 INPUT, DelayMicroseconds (digitTimeOn * numberOfDigits)]"
    by (simp add: extinguishDigits_def pin_defs)
  ultimately show ?thesis using extinguishDigits_blanks by simp
qed

theorem displayNumber_blank_outside_range_witness:
  "displayNumber (float_literal 1000) = Some [ExtinguishDigits, Delay 5000]
   \<and> displayNumber (float_literal (- 100)) = Some [ExtinguishDigits, Delay 5000]
   \<and> displayNumber NaN = Some [ExtinguishDigits, Delay 5000]
   \<and> displayNumber PInf = Some [ExtinguishDigits, Delay 5000]"
proof -
  have a1: "float_literal 1000 = Finite 1000" by code_simp
  have a2: "float_literal (- 100) = Finite (- 100)" by code_simp
  have "\<not> (flt (Finite (- 100)) (Finite 1000) \<and> flt (Finite 1000) (Finite 1000))"
       "\<not> (flt (Finite (- 100)) (Finite (- 100)) \<and> flt (Finite (- 100)) (Finite 1000))"
       "\<not> (flt (Finite (- 100)) NaN \<and> flt NaN (Finite 1000))"
       "\<not> (flt (Finite (- 100)) PInf \<and> flt PInf (Finite 1000))"
    by simp_all
  then show ?thesis
    using displayNumber_blank_outside_range [of "Finite 1000"]
          displayNumber_blank_outside_range [of "Finite (- 100)"]
          displayNumber_blank_outside_range [of NaN]
          displayNumber_blank_outside_range [of PInf]
    by (simp add: a1 a2 digitTimeOn_def numberOfDigits_def)
qed












text \<open>
  C4: \<^verbatim>\<open>displayNumber(-3.4)\<close> makes exactly three render steps, in this order: digit 4 on
  position 4, digit 3 with decimal point on position 3, the minus sign on position 2; the
  pins selected are \<^verbatim>\<open>DIGIT_4\<close>, \<^verbatim>\<open>DIGIT_3\<close>, \<^verbatim>\<open>DIGIT_2\<close>, and the final blank hold is
  \<^verbatim>\<open>digitTimeOn * 1\<close>.
\<close>

theorem displayNumber_minus_3_4:
  "displayNumber (float_literal (- (34 / 10)))
     = Some [DisplayDigit 4 4 False, Delay digitTimeOn,
             DisplayDigit 3 3 True, Delay digitTimeOn,
             DisplayMinusSign 2, Delay digitTimeOn,
             ExtinguishDigits, Delay (digitTimeOn * 1)]
   \<and> map_option selections
         (run_calls [DisplayDigit 4 4 False, Delay digitTimeOn,
                     DisplayDigit 3 3 True, Delay digitTimeOn,
                     DisplayMinusSign 2, Delay digitTimeOn,
                     ExtinguishDigits, Delay (digitTimeOn * 1)])
       = Some [DIGIT_4, DIGIT_3, DIGIT_2]"
  by code_simp

section \<open>The range of the rendered values\<close>


text \<open>
  The value 999.9375 is a \<^verbatim>\<open>float\<close> strictly between \<open>-100\<close> and \<open>1000\<close>, and
  \<^verbatim>\<open>displayNumber\<close> blanks it: the range in which numbers are rendered is not the open
  interval from \<open>-100\<close> to \<open>1000\<close>.
\<close>

theorem valid_range_counterexample:
  "flt (Finite (- 100)) (Finite (15999 / 16)) \<and> flt (Finite (15999 / 16)) (Finite 1000)
   \<and> to_float (15999 / 16) = Finite (15999 / 16)
   \<and> displayNumber (Finite (15999 / 16))
       = Some [ExtinguishDigits, Delay (digitTimeOn * numberOfDigits)]"
  by code_simp

lemma list_ex_with_dwell: "rs \<noteq> [] \<Longrightarrow> list_all is_render rs \<Longrightarrow> list_ex is_render (with_dwell rs @ cs)"
  by (cases rs) (simp_all add: with_dwell_Cons)

lemma length_with_dwell: "length (with_dwell rs) = 2 * length rs"
  by (induction rs) (simp_all add: with_dwell_Cons with_dwell_Nil)

text \<open>
  C7, amended: \<^verbatim>\<open>displayNumber\<close> renders a number exactly for the arguments \<open>v\<close> with
  \<^verbatim>\<open>minimumValue <= v <= maximumValue\<close>, both bounds included, and makes the blank cycle
  for every other argument; \<^verbatim>\<open>minimumValue\<close> and \<^verbatim>\<open>maximumValue\<close> are the \<^verbatim>\<open>float\<close> values
  nearest to \<open>-99.9\<close> and \<open>999.9\<close>.
\<close>

theorem displayNumber_renders_iff:
  "\<exists>calls. displayNumber v = Some calls
     \<and> (list_ex is_render calls \<longleftrightarrow> (fle minimumValue v \<and> fle v maximumValue))
     \<and> (calls = [ExtinguishDigits, Delay (digitTimeOn * numberOfDigits)]
          \<longleftrightarrow> \<not> (fle minimumValue v \<and> fle v maximumValue))
     \<and> minimumValue = to_float (- (999 / 10))
     \<and> maximumValue = to_float (9999 / 10)"
proof -
  have "to_float (- (999 / 10)) = Finite (- (13094093 / 131072))" by code_simp
  then have c1: "minimumValue = to_float (- (999 / 10))"
    by (simp add: minimumValue_def minimumValue_val_eq)
  have "to_float (9999 / 10) = Finite (8191181 / 8192)" by code_simp
  then have c2: "maximumValue = to_float (9999 / 10)"
    by (simp add: maximumValue_def maximumValue_val_eq)
  show ?thesis
  proof (cases "fle minimumValue v \<and> fle v maximumValue")
    case False
    then have "displayNumber v = Some [ExtinguishDigits, Delay (digitTimeOn * numberOfDigits)]"
      by (rule displayNumber_out_of_range)
    then show ?thesis using False c1 c2 by simp
  next
    case True
    then obtain x where v: "v = Finite x"
      by (cases v) (simp_all add: fle_def minimumValue_def maximumValue_def)
    with True have "minimumValue_val \<le> x" "x \<le> maximumValue_val"
      by (simp_all add: minimumValue_def maximumValue_def fle_Finite)
    from displayNumber_in_range [OF this] obtain rs where
      rs: "displayNumber (Finite x)
             = Some (with_dwell rs
                     @ [ExtinguishDigits, Delay (digitTimeOn * (numberOfDigits - int (length rs)))])"
        "2 \<le> length rs" "list_all is_render rs"
      by blast
    let ?calls = "with_dwell rs
                  @ [ExtinguishDigits, Delay (digitTimeOn * (numberOfDigits - int (length rs)))]"
    have "0 < length rs" using rs(2) by linarith
    then have ne0: "rs \<noteq> []" by simp
    then have ex: "list_ex is_render ?calls" using rs(3) by (rule list_ex_with_dwell)
    have "length ?calls \<noteq> length [ExtinguishDigits, Delay (digitTimeOn * numberOfDigits)]"
      using ne0 by (simp add: length_with_dwell)
    then have ne: "?calls \<noteq> [ExtinguishDigits, Delay (digitTimeOn * numberOfDigits)]"
      by (metis (no_types))
    show ?thesis
      using rs(1) ex ne True c1 c2 unfolding v by (intro exI [of _ ?calls]) simp
  qed
qed

section \<open>The refresh discipline\<close>

lemmas watch_defs = monitor_step_def end_of_step_def lit_exactly_def selects_def blanked_def
  asserted_def digit_pins_def segment_pins_def Let_def

lemma segment_walk: "rev [SEGMENT_A..SEGMENT_G] = [8, 7, 6, 5, 4, 3, 2]"
  by code_simp

text \<open>The bit walk of \<^verbatim>\<open>displayDigit\<close> over a table entry writes the glyph of the digit.\<close>

lemma table_glyphs:
  "list_all (\<lambda>n. write_segments [8, 7, 6, 5, 4, 3, 2] (segmentPatterns ! n)
                   = map (\<lambda>p. DigitalWrite p (p \<in> set (canonical_glyph ! n)))
                         [8, 7, 6, 5, 4, 3, 2])
            [0, 1, 2, 3, 4, 5, 6, 7, 8, 9]"
  by code_simp

lemma write_segments_glyph:
  "write_segments (rev [SEGMENT_A..SEGMENT_G])
       (if 0 \<le> val \<and> val \<le> 9 then segmentPatterns ! nat val else 0)
     = map (\<lambda>p. DigitalWrite p (p \<in> set (glyph_of val))) [8, 7, 6, 5, 4, 3, 2]"
proof (cases "0 \<le> val \<and> val \<le> 9")
  case True
  then have "val = 0 \<or> val = 1 \<or> val = 2 \<or> val = 3 \<or> val = 4 \<or> val = 5 \<or> val = 6
             \<or> val = 7 \<or> val = 8 \<or> val = 9"
    by arith
  then have "nat val \<in> set [0, 1, 2, 3, 4, 5, 6, 7, 8, 9]" by auto
  with table_glyphs
  have "write_segments [8, 7, 6, 5, 4, 3, 2] (segmentPatterns ! nat val)
          = map (\<lambda>p. DigitalWrite p (p \<in> set (canonical_glyph ! nat val)))
                [8, 7, 6, 5, 4, 3, 2]"
    unfolding list_all_iff by blast
  moreover from True have "glyph_of val = canonical_glyph ! nat val"
    and "(if 0 \<le> val \<and> val \<le> 9 then segmentPatterns ! nat val else 0)
           = segmentPatterns ! nat val"
    by (simp_all add: glyph_of_def)
  ultimately show ?thesis by (simp only: segment_walk)
next
  case False
  then have g: "glyph_of val = []"
    and i: "(if 0 \<le> val \<and> val \<le> 9 then segmentPatterns ! nat val else 0) = 0"
    by (auto simp: glyph_of_def)
  show ?thesis unfolding segment_walk i g by simp
qed

lemma displayDigit_glyph_events:
  "displayDigit digit val decimalPoint
     = Some (extinguishDigits
             @ map (\<lambda>p. DigitalWrite p (p \<in> set (glyph_of val))) [8, 7, 6, 5, 4, 3, 2]
             @ [DigitalWrite SEGMENT_DP decimalPoint,
                PinMode (digit + DIGIT_1 - 1) OUTPUT, DigitalWrite (digit + DIGIT_1 - 1) LOW])"
proof -
  have "(if 0 \<le> val \<and> val \<le> 9 then array_read segmentPatterns val else Some 0)
          = Some (if 0 \<le> val \<and> val \<le> 9 then segmentPatterns ! nat val else 0)"
    by (simp add: array_read_def segmentPatterns_def)
  then show ?thesis
    unfolding displayDigit_def by (simp add: write_segments_glyph Let_def)
qed

lemma digit_cases: "1 \<le> d \<Longrightarrow> d \<le> numberOfDigits \<Longrightarrow> d = 1 \<or> d = 2 \<or> d = 3 \<or> d = (4::int)"
  by (simp add: numberOfDigits_def) arith

lemma displayDigit_monitor:
  assumes "1 \<le> digit" "digit \<le> numberOfDigits" "mon_ok m"
  shows "\<exists>es. perform (DisplayDigit digit val decimalPoint) = Some es
            \<and> mon_ok (end_of_step (DisplayDigit digit val decimalPoint)
                 (foldl (monitor_step (expected_levels (DisplayDigit digit val decimalPoint)))
                        m es))"
  using digit_cases [OF assms(1,2)] assms(3)
  by (elim disjE)
     (simp_all add: displayDigit_glyph_events extinguishDigits_def pin_defs watch_defs)

lemma displayMinusSign_monitor:
  assumes "1 \<le> digit" "digit \<le> numberOfDigits" "mon_ok m"
  shows "\<exists>es. perform (DisplayMinusSign digit) = Some es
            \<and> mon_ok (end_of_step (DisplayMinusSign digit)
                 (foldl (monitor_step (expected_levels (DisplayMinusSign digit))) m es))"
  using digit_cases [OF assms(1,2)] assms(3)
  by (elim disjE)
     (simp_all add: displayMinusSign_def extinguishDigits_def pin_defs watch_defs)

lemma on_display_steps:
  assumes "list_all is_render rs" "int (length rs) \<le> numberOfDigits"
    and "map position rs = rev [numberOfDigits - int (length rs) + 1..numberOfDigits]"
  shows "list_all on_display (with_dwell rs @ [ExtinguishDigits, Delay us])"
proof -
  have "on_display c" if "c \<in> set rs" for c
  proof -
    from that have "position c \<in> set (map position rs)" by simp
    then have "1 \<le> position c \<and> position c \<le> numberOfDigits"
      using assms(2) unfolding assms(3) by simp
    moreover have "is_render c" using assms(1) that by (simp add: list_all_iff)
    ultimately show ?thesis by (cases c) simp_all
  qed
  then have "list_all on_display rs" by (simp add: list_all_iff)
  then have "list_all on_display (with_dwell rs)"
    by (induction rs) (simp_all add: with_dwell_Cons with_dwell_Nil)
  then show ?thesis by simp
qed

lemma perform_monitor:
  assumes "on_display c" "mon_ok m"
  shows "\<exists>es. perform c = Some es
            \<and> mon_ok (end_of_step c (foldl (monitor_step (expected_levels c)) m es))"
proof (cases c)
  case (DisplayDigit digit val decimalPoint)
  with assms show ?thesis using displayDigit_monitor [of digit m val decimalPoint] by simp
next
  case (DisplayMinusSign digit)
  with assms show ?thesis using displayMinusSign_monitor [of digit m] by simp
next
  case ExtinguishDigits
  with assms show ?thesis by (simp add: extinguishDigits_def pin_defs watch_defs)
next
  case (Delay us)
  with assms show ?thesis by (simp add: watch_defs pin_defs)
qed

lemma monitor_calls_ok:
  "list_all on_display cs \<Longrightarrow> mon_ok m
   \<Longrightarrow> \<exists>m'. monitor_calls m cs = Some m' \<and> mon_ok m'"
proof (induction cs arbitrary: m)
  case Nil
  then show ?case by simp
next
  case (Cons c cs)
  then have "on_display c" "list_all on_display cs" by simp_all
  from perform_monitor [OF this(1) Cons.prems(2)] obtain es where
    es: "perform c = Some es"
        "mon_ok (end_of_step c (foldl (monitor_step (expected_levels c)) m es))" by blast
  from Cons.IH [OF \<open>list_all on_display cs\<close> es(2)] show ?case using es(1) by simp
qed

lemma displayNumber_on_display:
  "\<exists>calls. displayNumber v = Some calls \<and> list_all on_display calls"
proof (cases "fle minimumValue v \<and> fle v maximumValue")
  case False
  then have "displayNumber v = Some [ExtinguishDigits, Delay (digitTimeOn * numberOfDigits)]"
    by (rule displayNumber_out_of_range)
  then show ?thesis by simp
next
  case True
  then obtain x where v: "v = Finite x"
    by (cases v) (simp_all add: fle_def minimumValue_def maximumValue_def)
  with True have "minimumValue_val \<le> x" "x \<le> maximumValue_val"
    by (simp_all add: minimumValue_def maximumValue_def fle_Finite)
  from displayNumber_in_range [OF this] obtain rs where
    rs: "displayNumber (Finite x)
           = Some (with_dwell rs
                   @ [ExtinguishDigits, Delay (digitTimeOn * (numberOfDigits - int (length rs)))])"
      "int (length rs) \<le> numberOfDigits" "list_all is_render rs"
      "map position rs = rev [numberOfDigits - int (length rs) + 1..numberOfDigits]"
    by blast
  from on_display_steps [OF rs(3,2,4)] rs(1) show ?thesis unfolding v by blast
qed

text \<open>
  The monitor tells a wrong pattern from the right one: the operations of
  \<^verbatim>\<open>displayDigit(4, 3, false)\<close> pass as the render step of the digit 3, and the operations
  that write the blank pattern do not.
\<close>

lemma monitor_rejects_wrong_pattern:
  "(case displayDigit 4 3 False of
      None \<Rightarrow> False
    | Some es \<Rightarrow>
        mon_ok (end_of_step (DisplayDigit 4 3 False)
          (foldl (monitor_step (expected_levels (DisplayDigit 4 3 False)))
             \<lparr>mon_hw = \<lparr>pin_modes = \<lambda>p. OUTPUT, levels = \<lambda>p. LOW\<rparr>,
              mon_written = [], mon_ok = True\<rparr> es)))
   \<and> (case displayDigit 4 10 False of
      None \<Rightarrow> False
    | Some es \<Rightarrow>
        \<not> mon_ok (end_of_step (DisplayDigit 4 3 False)
          (foldl (monitor_step (expected_levels (DisplayDigit 4 3 False)))
             \<lparr>mon_hw = \<lparr>pin_modes = \<lambda>p. OUTPUT, levels = \<lambda>p. LOW\<rparr>,
              mon_written = [], mon_ok = True\<rparr> es)))"
  by code_simp

text \<open>
  C9: during every call of \<^verbatim>\<open>displayNumber\<close>, from any state of the pins, a digit is
  selected only when no digit is selected, all eight segment lines have been written since
  the previous selection, and the segment lines carry exactly the glyph of the render step
  in progress (the font of the digit and its decimal point, or segment g alone for the
  sign); a segment line is written only while no digit is selected; and after every render
  step exactly the digit pin of its position is selected, with that glyph on the segment
  lines.
\<close>

theorem displayNumber_glitch_free:
  "\<exists>calls. displayNumber v = Some calls \<and> cycle_glitch_free s calls"
proof -
  from displayNumber_on_display [of v] obtain calls where
    calls: "displayNumber v = Some calls" "list_all on_display calls" by blast
  from monitor_calls_ok [OF calls(2), of "\<lparr>mon_hw = s, mon_written = [], mon_ok = True\<rparr>"]
  have "cycle_glitch_free s calls" by (auto simp: cycle_glitch_free_def)
  with calls(1) show ?thesis by blast
qed

lemma displayNumber_12_3_calls:
  "displayNumber (float_literal (123 / 10))
     = Some [DisplayDigit 4 3 False, Delay digitTimeOn,
             DisplayDigit 3 2 True, Delay digitTimeOn,
             DisplayDigit 2 1 False, Delay digitTimeOn,
             ExtinguishDigits, Delay (digitTimeOn * 1)]"
  by code_simp

theorem displayNumber_glitch_free_witness:
  "displayNumber (float_literal (123 / 10))
     = Some [DisplayDigit 4 3 False, Delay digitTimeOn,
             DisplayDigit 3 2 True, Delay digitTimeOn,
             DisplayDigit 2 1 False, Delay digitTimeOn,
             ExtinguishDigits, Delay (digitTimeOn * 1)]
   \<and> cycle_glitch_free \<lparr>pin_modes = \<lambda>p. OUTPUT, levels = \<lambda>p. LOW\<rparr>
        [DisplayDigit 4 3 False, Delay digitTimeOn,
         DisplayDigit 3 2 True, Delay digitTimeOn,
         DisplayDigit 2 1 False, Delay digitTimeOn,
         ExtinguishDigits, Delay (digitTimeOn * 1)]"
proof -
  from displayNumber_glitch_free
         [of "float_literal (123 / 10)" "\<lparr>pin_modes = \<lambda>p. OUTPUT, levels = \<lambda>p. LOW\<rparr>"]
  obtain calls where
    h: "displayNumber (float_literal (123 / 10)) = Some calls"
       "cycle_glitch_free \<lparr>pin_modes = \<lambda>p. OUTPUT, levels = \<lambda>p. LOW\<rparr> calls"
    by blast
  from h(1) have "calls = [DisplayDigit 4 3 False, Delay digitTimeOn,
                           DisplayDigit 3 2 True, Delay digitTimeOn,
                           DisplayDigit 2 1 False, Delay digitTimeOn,
                           ExtinguishDigits, Delay (digitTimeOn * 1)]"
    by (simp add: displayNumber_12_3_calls)
  with h show ?thesis by simp
qed


section \<open>The counter\<close>



















end
